theory Spec2Isabelle
  imports Main
begin

section \<open>The queue object\<close>

text \<open>
  The class \<^verbatim>\<open>locked_opt_queue<T>\<close> of \<^verbatim>\<open>ThreadSafeQueue.hpp\<close> holds a
  \<^verbatim>\<open>std::queue<T> m_queue\<close> and a flag \<^verbatim>\<open>m_joined\<close> (initially false), both read and
  written only while \<^verbatim>\<open>m_mutex\<close> is held. The queue is a list whose head is
  \<^verbatim>\<open>front()\<close> and to whose end \<^verbatim>\<open>push\<close> appends. The mutex and the condition
  variable carry no data; what they do is modelled by the shape of the operations below.
\<close>

record 'a locked_opt_queue =
  m_queue :: "'a list"
  m_joined :: bool

text \<open>The object as its constructor leaves it: nothing queued, not joined.\<close>

definition new_queue :: "'a locked_opt_queue" where
  "new_queue = \<lparr>m_queue = [], m_joined = False\<rparr>"

text \<open>
  What a member function does to \<^verbatim>\<open>m_condition\<close> before it returns:
  nothing, \<^verbatim>\<open>notify_one()\<close> or \<^verbatim>\<open>notify_all()\<close>.
\<close>

datatype notification = No_Notify | Notify_One | Notify_All

text \<open>
  Every member function takes \<^verbatim>\<open>m_mutex\<close> first, so the code between taking the
  lock and giving it up runs as one step on the state. Such a step ends in one of three
  ways:
  \<^item> \<open>Return r s n\<close>: the call returns \<open>r\<close>, leaves the object in state \<open>s\<close> and
    has issued the notification \<open>n\<close>;
  \<^item> \<open>Wait s\<close>: the predicate of \<^verbatim>\<open>m_condition.wait(lock, pred)\<close> is false, so the
    thread gives the lock up with the object in state \<open>s\<close> and sleeps; when it is woken
    (by a notification or spuriously) it takes the lock again and goes on from the
    predicate check, which is the \<open>_wake\<close> function of the operation;
  \<^item> \<open>Fault\<close>: the step calls \<^verbatim>\<open>front()\<close> or \<^verbatim>\<open>pop()\<close> on an empty
    \<^verbatim>\<open>std::queue\<close>, which is undefined behaviour.
\<close>

datatype ('r, 'a) outcome =
    Return 'r "'a locked_opt_queue" notification
  | Wait "'a locked_opt_queue"
  | Fault

subsection \<open>\<^verbatim>\<open>wait_pop\<close>\<close>

text \<open>The wait predicate \<^verbatim>\<open>!m_queue.empty() or m_joined\<close>.\<close>

definition wait_pop_pred :: "'a locked_opt_queue \<Rightarrow> bool" where
  "wait_pop_pred s = (m_queue s \<noteq> [] \<or> m_joined s)"

text \<open>
  From \<^verbatim>\<open>m_condition.wait\<close> to the end of \<^verbatim>\<open>wait_pop\<close>:
  \<^verbatim>\<open>while (!pred()) wait(lock);\<close>, then the second test of \<^verbatim>\<open>m_joined\<close>, then
  \<^verbatim>\<open>front()\<close> and \<^verbatim>\<open>pop()\<close>.
\<close>

definition wait_pop_wake :: "'a locked_opt_queue \<Rightarrow> ('a option, 'a) outcome" where
  "wait_pop_wake s =
     (if \<not> wait_pop_pred s then Wait s
      else if m_joined s then Return None s No_Notify
      else (case m_queue s of
              [] \<Rightarrow> Fault
            | out # rest \<Rightarrow> Return (Some out) (s\<lparr>m_queue := rest\<rparr>) No_Notify))"

definition wait_pop :: "'a locked_opt_queue \<Rightarrow> ('a option, 'a) outcome" where
  "wait_pop s = (if m_joined s then Return None s No_Notify else wait_pop_wake s)"

subsection \<open>\<^verbatim>\<open>get\<close>\<close>

text \<open>The wait predicate \<^verbatim>\<open>!m_queue.empty() or (m_joined and m_queue.empty())\<close>.\<close>

definition get_pred :: "'a locked_opt_queue \<Rightarrow> bool" where
  "get_pred s = (m_queue s \<noteq> [] \<or> (m_joined s \<and> m_queue s = []))"

definition get_wake :: "'a locked_opt_queue \<Rightarrow> ('a option, 'a) outcome" where
  "get_wake s =
     (if \<not> get_pred s then Wait s
      else if m_joined s \<and> length (m_queue s) = 0 then Return None s No_Notify
      else (case m_queue s of
              [] \<Rightarrow> Fault
            | out # rest \<Rightarrow> Return (Some out) (s\<lparr>m_queue := rest\<rparr>) Notify_All))"

definition get :: "'a locked_opt_queue \<Rightarrow> ('a option, 'a) outcome" where
  "get s =
     (if m_joined s \<and> length (m_queue s) = 0 then Return None s No_Notify
      else get_wake s)"

subsection \<open>\<^verbatim>\<open>push\<close>\<close>

definition push :: "'a locked_opt_queue \<Rightarrow> 'a \<Rightarrow> (bool, 'a) outcome" where
  "push s val =
     (if m_joined s then Return False s No_Notify
      else Return True (s\<lparr>m_queue := m_queue s @ [val]\<rparr>) Notify_One)"

subsection \<open>\<^verbatim>\<open>empty\<close>, \<^verbatim>\<open>complete\<close>, \<^verbatim>\<open>size\<close>\<close>

definition empty_q :: "'a locked_opt_queue \<Rightarrow> (bool, 'a) outcome" where
  "empty_q s = Return (m_queue s = []) s No_Notify"

definition complete :: "'a locked_opt_queue \<Rightarrow> (bool, 'a) outcome" where
  "complete s = Return (m_joined s \<and> m_queue s = []) s No_Notify"

definition size_q :: "'a locked_opt_queue \<Rightarrow> (nat, 'a) outcome" where
  "size_q s = Return (length (m_queue s)) s No_Notify"

subsection \<open>\<^verbatim>\<open>stop\<close> and \<^verbatim>\<open>join\<close>\<close>

definition stop :: "'a locked_opt_queue \<Rightarrow> (unit, 'a) outcome" where
  "stop s = Return () (s\<lparr>m_joined := True\<rparr>) Notify_All"

text \<open>The wait of \<^verbatim>\<open>join\<close>, with the predicate \<^verbatim>\<open>m_joined and m_queue.empty()\<close>.\<close>

definition join_wake :: "'a locked_opt_queue \<Rightarrow> (unit, 'a) outcome" where
  "join_wake s =
     (if \<not> (m_joined s \<and> m_queue s = []) then Wait s else Return () s No_Notify)"

definition join :: "'a locked_opt_queue \<Rightarrow> (unit, 'a) outcome" where
  "join s =
     (let s' = s\<lparr>m_joined := True\<rparr>
      in if length (m_queue s') = 0 then Return () s' No_Notify else join_wake s')"

text \<open>\<open>stop\<close> called \<open>k + 1\<close> times in a row by one thread; the outcome is that of the last call.\<close>

fun stop_again :: "nat \<Rightarrow> 'a locked_opt_queue \<Rightarrow> (unit, 'a) outcome" where
  "stop_again 0 s = stop s"
| "stop_again (Suc k) s =
     (case stop s of
        Return _ s' _ \<Rightarrow> stop_again k s'
      | Wait s' \<Rightarrow> Wait s'
      | Fault \<Rightarrow> Fault)"

section \<open>A consumer that drains the queue\<close>

text \<open>
  The loop of a single consumer that calls \<open>get\<close> again and again until a call does not
  hand it an item: it collects the items in the order received and keeps the outcome of the
  last call, which is an empty result, a wait that nobody ends (no other thread runs in
  this loop) or a fault. Every item received shortens \<open>m_queue\<close>, so the loop ends.
\<close>

function drain :: "'a locked_opt_queue \<Rightarrow> 'a list \<times> ('a option, 'a) outcome" where
  "drain s =
     (case get s of
        Return r s' n \<Rightarrow>
          (case r of
             None \<Rightarrow> ([], Return None s' n)
           | Some x \<Rightarrow> (case drain s' of (xs, e) \<Rightarrow> (x # xs, e)))
      | Wait s' \<Rightarrow> ([], Wait s')
      | Fault \<Rightarrow> ([], Fault))"
  by pat_completeness auto
termination
proof (relation "measure (\<lambda>s. length (m_queue s))")
  show "wf (measure (\<lambda>s::'a locked_opt_queue. length (m_queue s)))"
    by simp
next
  fix s s' :: "'a locked_opt_queue" and r :: "'a option" and n x
  assume "get s = Return r s' n" and "r = Some x"
  then show "(s', s) \<in> measure (\<lambda>s. length (m_queue s))"
    by (auto simp: get_def get_wake_def split: if_splits list.splits)
qed

section \<open>Threads sharing one queue\<close>

text \<open>
  The public member functions as calls, and what a call hands back: \<^verbatim>\<open>bool\<close> from
  \<^verbatim>\<open>push\<close>, \<^verbatim>\<open>empty\<close> and \<^verbatim>\<open>complete\<close>, \<^verbatim>\<open>std::optional<T>\<close> from the two pops,
  nothing from \<^verbatim>\<open>stop\<close> and \<^verbatim>\<open>join\<close>, a count from \<^verbatim>\<open>size\<close>.
\<close>

datatype 'a call = Push 'a | Wait_pop | Get | Empty | Complete | Stop | Join | Size

datatype 'a retval = Ret_bool bool | Ret_opt "'a option" | Ret_unit | Ret_size nat

fun ret_as :: "('r \<Rightarrow> 'a retval) \<Rightarrow> ('r, 'a) outcome \<Rightarrow> ('a retval, 'a) outcome" where
  "ret_as f (Return r s n) = Return (f r) s n"
| "ret_as f (Wait s) = Wait s"
| "ret_as f Fault = Fault"

text \<open>A call from its first line, up to its return or its first sleep.\<close>

fun invoke :: "'a call \<Rightarrow> 'a locked_opt_queue \<Rightarrow> ('a retval, 'a) outcome" where
  "invoke (Push val) s = ret_as Ret_bool (push s val)"
| "invoke Wait_pop s = ret_as Ret_opt (wait_pop s)"
| "invoke Get s = ret_as Ret_opt (get s)"
| "invoke Empty s = ret_as Ret_bool (empty_q s)"
| "invoke Complete s = ret_as Ret_bool (complete s)"
| "invoke Stop s = ret_as (\<lambda>_. Ret_unit) (stop s)"
| "invoke Join s = ret_as (\<lambda>_. Ret_unit) (join s)"
| "invoke Size s = ret_as Ret_size (size_q s)"

text \<open>
  A call that sleeps in \<^verbatim>\<open>m_condition.wait\<close>, from its wake-up to its return or its next
  sleep. The other member functions have no wait in them, so no thread ever sleeps in one.
\<close>

fun resume :: "'a call \<Rightarrow> 'a locked_opt_queue \<Rightarrow> ('a retval, 'a) outcome" where
  "resume Wait_pop s = ret_as Ret_opt (wait_pop_wake s)"
| "resume Get s = ret_as Ret_opt (get_wake s)"
| "resume Join s = ret_as (\<lambda>_. Ret_unit) (join_wake s)"
| "resume c s = invoke c s"

text \<open>
  Any number of threads, named by numbers, share one queue object. A thread is either
  outside the queue's member functions or asleep inside one call. \<^verbatim>\<open>m_mutex\<close> lets one
  thread at a time run a step, so an execution is a sequence of steps, each by one
  thread: \<open>Invoke c\<close> starts the call \<open>c\<close>, \<open>Wake\<close> ends a sleep.
  \<^verbatim>\<open>std::condition_variable::wait\<close> may wake without a notification, so a sleeping
  thread may be scheduled at any time; an entry that names a thread which cannot take
  the step is passed over. An execution that reaches \<open>Fault\<close> has no result.
  An event \<open>Ev t c r\<close> records that the call \<open>c\<close> of thread \<open>t\<close> returned \<open>r\<close>; the
  events are in the order in which the returning steps held the lock.
\<close>

record 'a system =
  shared :: "'a locked_opt_queue"
  blocked :: "nat \<Rightarrow> 'a call option"

datatype 'a action = Invoke "'a call" | Wake

datatype 'a event = Ev nat "'a call" "'a retval"

definition settle ::
  "'a system \<Rightarrow> nat \<Rightarrow> 'a call \<Rightarrow> ('a retval, 'a) outcome \<Rightarrow> ('a system \<times> 'a event list) option"
where
  "settle sys t c out =
     (case out of
        Return r s n \<Rightarrow> Some (\<lparr>shared = s, blocked = (blocked sys)(t := None)\<rparr>, [Ev t c r])
      | Wait s \<Rightarrow> Some (\<lparr>shared = s, blocked = (blocked sys)(t := Some c)\<rparr>, [])
      | Fault \<Rightarrow> None)"

fun step :: "'a system \<Rightarrow> nat \<times> 'a action \<Rightarrow> ('a system \<times> 'a event list) option" where
  "step sys (t, Invoke c) =
     (case blocked sys t of
        None \<Rightarrow> settle sys t c (invoke c (shared sys))
      | Some _ \<Rightarrow> Some (sys, []))"
| "step sys (t, Wake) =
     (case blocked sys t of
        None \<Rightarrow> Some (sys, [])
      | Some c \<Rightarrow> settle sys t c (resume c (shared sys)))"

fun run :: "'a system \<Rightarrow> (nat \<times> 'a action) list \<Rightarrow> ('a system \<times> 'a event list) option" where
  "run sys [] = Some (sys, [])"
| "run sys (a # as) =
     (case step sys a of
        None \<Rightarrow> None
      | Some (sys', es) \<Rightarrow>
          (case run sys' as of
             None \<Rightarrow> None
           | Some (sys'', es') \<Rightarrow> Some (sys'', es @ es')))"

text \<open>A fresh queue with every thread outside it.\<close>

definition new_system :: "'a system" where
  "new_system = \<lparr>shared = new_queue, blocked = (\<lambda>_. None)\<rparr>"

text \<open>
  The values whose \<open>push\<close> returned true, in the order of the events, and the values
  handed out by a pop, each with the thread that received it.
\<close>

fun pushed_by :: "'a event \<Rightarrow> 'a list" where
  "pushed_by (Ev t (Push val) (Ret_bool True)) = [val]"
| "pushed_by e = []"

fun delivered_by :: "'a event \<Rightarrow> (nat \<times> 'a) list" where
  "delivered_by (Ev t c (Ret_opt (Some out))) = [(t, out)]"
| "delivered_by e = []"

definition pushed :: "'a event list \<Rightarrow> 'a list" where
  "pushed es = concat (map pushed_by es)"

definition delivered :: "'a event list \<Rightarrow> (nat \<times> 'a) list" where
  "delivered es = concat (map delivered_by es)"

section \<open>Facts about the steps\<close>

text \<open>The loop equation of \<open>drain\<close> unfolds without end, so it is used by hand only.\<close>

declare drain.simps [simp del]

lemmas op_defs = push_def wait_pop_def wait_pop_wake_def wait_pop_pred_def get_def get_wake_def
  get_pred_def empty_q_def complete_def size_q_def stop_def join_def join_wake_def

lemma drain_joined:
  "m_joined s \<Longrightarrow> drain s = (m_queue s, Return None (s\<lparr>m_queue := []\<rparr>) No_Notify)"
proof (induction "m_queue s" arbitrary: s)
  case Nil
  then have "get s = Return None s No_Notify"
    by (simp add: get_def)
  moreover from Nil have "s\<lparr>m_queue := []\<rparr> = s"
    by simp
  ultimately show ?case
    using Nil by (simp add: drain.simps [of s])
next
  case (Cons x xs)
  let ?s' = "s\<lparr>m_queue := xs\<rparr>"
  from Cons.hyps(2) [symmetric] have g: "get s = Return (Some x) ?s' Notify_All"
    by (simp add: get_def get_wake_def get_pred_def)
  have "drain ?s' = (m_queue ?s', Return None (?s'\<lparr>m_queue := []\<rparr>) No_Notify)"
    using Cons.prems by (intro Cons.hyps(1)) simp_all
  then show ?case
    using g Cons.hyps(2) [symmetric] by (simp add: drain.simps [of s])
qed

lemma invoke_no_fault: "invoke c s \<noteq> Fault"
  by (cases c) (auto simp: op_defs Let_def split: list.splits)

lemma resume_no_fault: "resume c s \<noteq> Fault"
  by (cases c) (auto simp: op_defs Let_def split: list.splits)

lemma invoke_wait: "invoke c s = Wait s' \<Longrightarrow> m_queue s' = m_queue s \<and> (m_joined s \<longrightarrow> m_joined s')"
  by (cases c) (auto simp: op_defs Let_def split: if_splits list.splits)

lemma resume_wait: "resume c s = Wait s' \<Longrightarrow> s' = s"
  by (cases c) (auto simp: op_defs Let_def split: if_splits list.splits)

lemma invoke_return:
  "invoke c s = Return r s' n \<Longrightarrow>
     m_queue s @ pushed_by (Ev t c r) = map snd (delivered_by (Ev t c r)) @ m_queue s'"
  by (cases c) (auto simp: op_defs Let_def split: if_splits list.splits)

lemma resume_return:
  "resume c s = Return r s' n \<Longrightarrow>
     m_queue s @ pushed_by (Ev t c r) = map snd (delivered_by (Ev t c r)) @ m_queue s'"
  by (cases c) (auto simp: op_defs Let_def split: if_splits list.splits)

lemma step_conserves:
  "\<exists>sys' es. step sys a = Some (sys', es)
     \<and> m_queue (shared sys) @ pushed es = map snd (delivered es) @ m_queue (shared sys')"
proof (cases a)
  case (Pair t act)
  show ?thesis
  proof (cases act)
    case (Invoke c)
    show ?thesis
    proof (cases "blocked sys t")
      case None
      then show ?thesis
        using Pair Invoke invoke_no_fault [of c "shared sys"] invoke_wait [of c "shared sys"]
          invoke_return [of c "shared sys" _ _ _ t]
        by (cases "invoke c (shared sys)") (simp_all add: settle_def pushed_def delivered_def)
    next
      case (Some c')
      then show ?thesis
        using Pair Invoke by (simp add: pushed_def delivered_def)
    qed
  next
    case Wake
    show ?thesis
    proof (cases "blocked sys t")
      case None
      then show ?thesis
        using Pair Wake by (simp add: pushed_def delivered_def)
    next
      case (Some c)
      then show ?thesis
        using Pair Wake resume_no_fault [of c "shared sys"] resume_wait [of c "shared sys"]
          resume_return [of c "shared sys" _ _ _ t]
        by (cases "resume c (shared sys)") (simp_all add: settle_def pushed_def delivered_def)
    qed
  qed
qed

lemma pushed_append: "pushed (es @ es') = pushed es @ pushed es'"
  by (simp add: pushed_def)

lemma delivered_append: "delivered (es @ es') = delivered es @ delivered es'"
  by (simp add: delivered_def)

lemma run_conserves:
  "\<exists>sys' tr. run sys sched = Some (sys', tr)
     \<and> m_queue (shared sys) @ pushed tr = map snd (delivered tr) @ m_queue (shared sys')"
proof (induction sched arbitrary: sys)
  case Nil
  show ?case by (simp add: pushed_def delivered_def)
next
  case (Cons a sched)
  from step_conserves [of sys a] obtain sys1 es where
    s: "step sys a = Some (sys1, es)"
    and c: "m_queue (shared sys) @ pushed es = map snd (delivered es) @ m_queue (shared sys1)"
    by blast
  from Cons.IH [of sys1] obtain sys2 tr where
    r: "run sys1 sched = Some (sys2, tr)"
    and c': "m_queue (shared sys1) @ pushed tr = map snd (delivered tr) @ m_queue (shared sys2)"
    by blast
  have "m_queue (shared sys) @ pushed (es @ tr)
      = (m_queue (shared sys) @ pushed es) @ pushed tr"
    by (simp add: pushed_append)
  also have "\<dots> = map snd (delivered es) @ (m_queue (shared sys1) @ pushed tr)"
    by (simp add: c)
  also have "\<dots> = map snd (delivered (es @ tr)) @ m_queue (shared sys2)"
    by (simp add: c' delivered_append)
  finally show ?case
    using s r by simp
qed

text \<open>Only the two pops and \<open>join\<close> can put a thread to sleep.\<close>

lemma only_pops_and_join_wait:
  "invoke c s = Wait s' \<Longrightarrow> c = Wait_pop \<or> c = Get \<or> c = Join"
  by (cases c) (auto simp: op_defs split: if_splits)

subsection \<open>Once stopped, always stopped\<close>

lemma invoke_joined:
  "m_joined s \<Longrightarrow> invoke c s = Return r s' n \<Longrightarrow> m_joined s'"
  by (cases c) (auto simp: op_defs Let_def split: if_splits list.splits)

lemma resume_joined:
  "m_joined s \<Longrightarrow> resume c s = Return r s' n \<Longrightarrow> m_joined s'"
  by (cases c) (auto simp: op_defs Let_def split: if_splits list.splits)

lemma push_joined:
  "m_joined s \<Longrightarrow> invoke (Push val) s = Return r s' n \<Longrightarrow> r = Ret_bool False"
  by (auto simp: push_def)

lemma settle_joined:
  assumes "settle sys t c out = Some (sys', es)"
    and "\<And>r s' n. out = Return r s' n \<Longrightarrow> m_joined s'"
    and "\<And>r s' n val. out = Return r s' n \<Longrightarrow> c = Push val \<Longrightarrow> r = Ret_bool False"
    and "\<And>s'. out = Wait s' \<Longrightarrow> m_joined s'"
  shows "m_joined (shared sys') \<and> (\<forall>t val r. Ev t (Push val) r \<in> set es \<longrightarrow> r = Ret_bool False)"
proof (cases out)
  case (Return r s' n)
  with assms(1) have "sys' = \<lparr>shared = s', blocked = (blocked sys)(t := None)\<rparr>" and "es = [Ev t c r]"
    by (simp_all add: settle_def)
  with assms(2) [OF Return] assms(3) [OF Return] show ?thesis by auto
next
  case (Wait s')
  with assms(1) have "sys' = \<lparr>shared = s', blocked = (blocked sys)(t := Some c)\<rparr>" and "es = []"
    by (simp_all add: settle_def)
  with assms(4) [OF Wait] show ?thesis by simp
next
  case Fault
  with assms(1) show ?thesis by (simp add: settle_def)
qed

lemma step_joined:
  assumes j: "m_joined (shared sys)" and s: "step sys a = Some (sys', es)"
  shows "m_joined (shared sys') \<and> (\<forall>t val r. Ev t (Push val) r \<in> set es \<longrightarrow> r = Ret_bool False)"
proof (cases a)
  case (Pair t act)
  show ?thesis
  proof (cases "blocked sys t")
    case None
    show ?thesis
    proof (cases act)
      case (Invoke c)
      with s Pair None have "settle sys t c (invoke c (shared sys)) = Some (sys', es)"
        by simp
      then show ?thesis
      proof (rule settle_joined)
        fix r s' n assume "invoke c (shared sys) = Return r s' n"
        then show "m_joined s'" using j by (rule invoke_joined [rotated])
      next
        fix r s' n val assume "invoke c (shared sys) = Return r s' n" and "c = Push val"
        then show "r = Ret_bool False" using j push_joined [of "shared sys" val r s' n] by simp
      next
        fix s' assume "invoke c (shared sys) = Wait s'"
        then show "m_joined s'" using j invoke_wait [of c "shared sys" s'] by simp
      qed
    next
      case Wake
      with s Pair None have "sys' = sys" and "es = []" by simp_all
      with j show ?thesis by simp
    qed
  next
    case (Some c)
    show ?thesis
    proof (cases act)
      case (Invoke c')
      with s Pair Some have "sys' = sys" and "es = []" by simp_all
      with j show ?thesis by simp
    next
      case Wake
      with s Pair Some have "settle sys t c (resume c (shared sys)) = Some (sys', es)"
        by simp
      then show ?thesis
      proof (rule settle_joined)
        fix r s' n assume "resume c (shared sys) = Return r s' n"
        then show "m_joined s'" using j by (rule resume_joined [rotated])
      next
        fix r s' n val assume "resume c (shared sys) = Return r s' n" and "c = Push val"
        then show "r = Ret_bool False" using j push_joined [of "shared sys" val r s' n] by simp
      next
        fix s' assume "resume c (shared sys) = Wait s'"
        then show "m_joined s'" using j resume_wait [of c "shared sys" s'] by simp
      qed
    qed
  qed
qed

lemma run_joined:
  "m_joined (shared sys) \<Longrightarrow> run sys sched = Some (sys', tr) \<Longrightarrow>
     m_joined (shared sys') \<and> (\<forall>t val r. Ev t (Push val) r \<in> set tr \<longrightarrow> r = Ret_bool False)"
proof (induction sched arbitrary: sys tr)
  case Nil
  then show ?case by simp
next
  case (Cons a sched)
  from Cons.prems(2) obtain sys1 es tr1 where
    s: "step sys a = Some (sys1, es)" and r: "run sys1 sched = Some (sys', tr1)"
    and tr: "tr = es @ tr1"
    by (auto split: option.splits)
  from step_joined [OF Cons.prems(1) s] Cons.IH [OF _ r] tr show ?case
    by auto
qed

lemma pushed_by_rejected:
  assumes "\<And>val. c = Push val \<Longrightarrow> r = Ret_bool False"
  shows "pushed_by (Ev t c r) = []"
  using assms by (cases c; cases r) auto

lemma run_joined_no_push:
  assumes "m_joined (shared sys)" and "run sys sched = Some (sys', tr)"
  shows "pushed tr = []"
proof -
  have "pushed_by e = []" if "e \<in> set tr" for e
  proof (cases e)
    case (Ev t c r)
    have "r = Ret_bool False" if "c = Push val" for val
      using run_joined [OF assms] \<open>e \<in> set tr\<close> Ev that by blast
    then show ?thesis
      using Ev by (simp add: pushed_by_rejected)
  qed
  then show ?thesis
    by (simp add: pushed_def)
qed

lemma invoke_complete:
  "m_joined s \<Longrightarrow> m_queue s = [] \<Longrightarrow>
     \<exists>r n. invoke c s = Return r s n \<and> (c = Complete \<longrightarrow> r = Ret_bool True)"
  by (cases c) (simp_all add: op_defs Let_def)

lemma resume_complete:
  "m_joined s \<Longrightarrow> m_queue s = [] \<Longrightarrow>
     \<exists>r n. resume c s = Return r s n \<and> (c = Complete \<longrightarrow> r = Ret_bool True)"
  by (cases c) (simp_all add: op_defs Let_def)

lemma step_complete:
  assumes "m_joined (shared sys)" and "m_queue (shared sys) = []"
  shows "\<exists>sys' es. step sys a = Some (sys', es) \<and> shared sys' = shared sys
           \<and> (\<forall>t r. Ev t Complete r \<in> set es \<longrightarrow> r = Ret_bool True)"
proof (cases a)
  case (Pair t act)
  show ?thesis
  proof (cases act)
    case (Invoke c)
    then show ?thesis
      using Pair invoke_complete [OF assms, of c]
      by (auto simp: settle_def split: option.splits)
  next
    case Wake
    show ?thesis
    proof (cases "blocked sys t")
      case None
      then show ?thesis using Pair Wake by simp
    next
      case (Some c)
      then show ?thesis
        using Pair Wake resume_complete [OF assms, of c]
        by (auto simp: settle_def)
    qed
  qed
qed

lemma run_complete:
  "m_joined (shared sys) \<Longrightarrow> m_queue (shared sys) = [] \<Longrightarrow>
     \<exists>sys' tr. run sys sched = Some (sys', tr) \<and> shared sys' = shared sys
       \<and> (\<forall>t r. Ev t Complete r \<in> set tr \<longrightarrow> r = Ret_bool True)"
proof (induction sched arbitrary: sys)
  case Nil
  then show ?case by simp
next
  case (Cons a sched)
  from step_complete [OF Cons.prems, of a] obtain sys1 es where
    s: "step sys a = Some (sys1, es)" and e: "shared sys1 = shared sys"
    and c: "\<forall>t r. Ev t Complete r \<in> set es \<longrightarrow> r = Ret_bool True"
    by blast
  from Cons.IH [of sys1] Cons.prems e obtain sys2 tr where
    r: "run sys1 sched = Some (sys2, tr)" and e': "shared sys2 = shared sys1"
    and c': "\<forall>t r. Ev t Complete r \<in> set tr \<longrightarrow> r = Ret_bool True"
    by auto
  from s r e e' c c' show ?case
    by auto
qed

subsection \<open>Events of a step\<close>

lemma settle_event:
  assumes "settle sys t c out = Some (sys', es)" and "e \<in> set es"
  shows "\<exists>r n. out = Return r (shared sys') n \<and> e = Ev t c r"
  using assms by (cases out) (auto simp: settle_def)

lemma step_event:
  assumes "step sys a = Some (sys', es)" and "e \<in> set es"
  shows "\<exists>t c r n. e = Ev t c r
           \<and> (invoke c (shared sys) = Return r (shared sys') n
              \<or> resume c (shared sys) = Return r (shared sys') n)"
proof (cases a)
  case (Pair t act)
  show ?thesis
  proof (cases act)
    case (Invoke c)
    show ?thesis
    proof (cases "blocked sys t")
      case None
      with assms(1) Pair Invoke have "settle sys t c (invoke c (shared sys)) = Some (sys', es)"
        by simp
      from settle_event [OF this assms(2)] show ?thesis
        by blast
    next
      case (Some c')
      with assms Pair Invoke show ?thesis
        by auto
    qed
  next
    case Wake
    show ?thesis
    proof (cases "blocked sys t")
      case None
      with assms Pair Wake show ?thesis
        by auto
    next
      case (Some c)
      with assms(1) Pair Wake have "settle sys t c (resume c (shared sys)) = Some (sys', es)"
        by simp
      from settle_event [OF this assms(2)] show ?thesis
        by blast
    qed
  qed
qed

lemma join_returns_complete:
  assumes "invoke Join s = Return r s' n \<or> resume Join s = Return r s' n"
  shows "m_joined s' \<and> m_queue s' = [] \<and> m_queue s = []"
  using assms by (auto simp: join_def join_wake_def Let_def split: if_splits)

lemma step_join_event:
  assumes st: "step sys a = Some (sys', es)" and ev: "Ev t Join r \<in> set es"
  shows "m_joined (shared sys') \<and> m_queue (shared sys') = [] \<and> m_queue (shared sys) = []"
proof -
  from step_event [OF st ev] obtain n where
    "invoke Join (shared sys) = Return r (shared sys') n
       \<or> resume Join (shared sys) = Return r (shared sys') n"
    by blast
  then show ?thesis
    by (rule join_returns_complete)
qed

lemma stop_again_eq: "stop_again k s = stop s"
proof (induction k arbitrary: s)
  case 0
  show ?case by simp
next
  case (Suc k)
  have "stop_again (Suc k) s = stop_again k (s\<lparr>m_joined := True\<rparr>)"
    by (simp add: stop_def)
  also have "\<dots> = stop (s\<lparr>m_joined := True\<rparr>)"
    by (rule Suc.IH)
  also have "\<dots> = stop s"
    by (simp add: stop_def)
  finally show ?case .
qed

section \<open>The claims\<close>

text \<open>
  C1. Drain correctness. For every queue state, \<open>stop\<close> returns, and a consumer that then
  calls \<open>get\<close> until it returns empty receives exactly the items that were in the buffer
  when \<open>stop\<close> was called, each once and in FIFO order; the call that ends the loop returns
  the empty result and leaves the buffer empty. With other threads at work after the
  \<open>stop\<close>, in any order, the items delivered to all consumers together, followed by
  what is left in the buffer, are still exactly the items of that moment.
\<close>

theorem drain_after_stop:
  "\<exists>s1. stop s = Return () s1 Notify_All
     \<and> drain s1 = (m_queue s, Return None \<lparr>m_queue = [], m_joined = True\<rparr> No_Notify)
     \<and> (\<forall>sys sched. shared sys = s1 \<longrightarrow>
           (\<exists>sys' tr. run sys sched = Some (sys', tr)
              \<and> m_queue s = map snd (delivered tr) @ m_queue (shared sys')))"
proof -
  let ?s1 = "s\<lparr>m_joined := True\<rparr>"
  have "drain ?s1 = (m_queue ?s1, Return None (?s1\<lparr>m_queue := []\<rparr>) No_Notify)"
    by (rule drain_joined) simp
  moreover have "?s1\<lparr>m_queue := []\<rparr> = \<lparr>m_queue = [], m_joined = True\<rparr>"
    by simp
  ultimately have d: "drain ?s1 = (m_queue s, Return None \<lparr>m_queue = [], m_joined = True\<rparr> No_Notify)"
    by simp
  have c: "\<exists>sys' tr. run sys sched = Some (sys', tr)
              \<and> m_queue s = map snd (delivered tr) @ m_queue (shared sys')"
    if sh: "shared sys = ?s1" for sys :: "'a system" and sched
  proof -
    from run_conserves [of sys sched] obtain sys' tr where
      r: "run sys sched = Some (sys', tr)"
      and e: "m_queue (shared sys) @ pushed tr = map snd (delivered tr) @ m_queue (shared sys')"
      by blast
    from sh have "m_joined (shared sys)"
      by simp
    then have "pushed tr = []"
      using r by (rule run_joined_no_push)
    with e sh have "m_queue s = map snd (delivered tr) @ m_queue (shared sys')"
      by simp
    with r show ?thesis
      by blast
  qed
  have "stop s = Return () ?s1 Notify_All"
    by (simp add: stop_def)
  with d c show ?thesis
    by blast
qed

theorem drain_after_stop_witness:
  "stop \<lparr>m_queue = [1, 2, 3::nat], m_joined = False\<rparr>
     = Return () \<lparr>m_queue = [1, 2, 3], m_joined = True\<rparr> Notify_All
   \<and> drain \<lparr>m_queue = [1, 2, 3::nat], m_joined = True\<rparr>
     = ([1, 2, 3], Return None \<lparr>m_queue = [], m_joined = True\<rparr> No_Notify)
   \<and> (\<exists>sys'.
        run \<lparr>shared = \<lparr>m_queue = [1, 2, 3::nat], m_joined = True\<rparr>, blocked = (\<lambda>_. None)\<rparr>
          [(0, Invoke Get), (1, Invoke (Push 9)), (1, Invoke Get), (0, Invoke Get),
           (0, Invoke Get)]
          = Some (sys',
              [Ev 0 Get (Ret_opt (Some 1)), Ev 1 (Push 9) (Ret_bool False),
               Ev 1 Get (Ret_opt (Some 2)), Ev 0 Get (Ret_opt (Some 3)),
               Ev 0 Get (Ret_opt None)])
        \<and> m_queue (shared sys') = [])"
proof -
  have r: "\<exists>sys'.
        run \<lparr>shared = \<lparr>m_queue = [1, 2, 3::nat], m_joined = True\<rparr>, blocked = (\<lambda>_. None)\<rparr>
          [(0, Invoke Get), (1, Invoke (Push 9)), (1, Invoke Get), (0, Invoke Get),
           (0, Invoke Get)]
          = Some (sys',
              [Ev 0 Get (Ret_opt (Some 1)), Ev 1 (Push 9) (Ret_bool False),
               Ev 1 Get (Ret_opt (Some 2)), Ev 0 Get (Ret_opt (Some 3)),
               Ev 0 Get (Ret_opt None)])
        \<and> m_queue (shared sys') = []"
    by (simp add: settle_def op_defs)
  show ?thesis
    using r drain_after_stop [of "\<lparr>m_queue = [1, 2, 3::nat], m_joined = False\<rparr>"]
    by (simp add: stop_def)
qed

text \<open>
  C2. On a stopped queue \<open>wait_pop\<close> returns the empty result and leaves the state as it
  is, whatever is in the buffer, both when it is called and when it wakes from its wait.
  On a queue that is not stopped and holds an item it returns the head item and removes
  it from the buffer.
\<close>

theorem wait_pop_abandons_when_stopped:
  "(m_joined s \<longrightarrow>
      wait_pop s = Return None s No_Notify \<and> wait_pop_wake s = Return None s No_Notify)
   \<and> (\<not> m_joined s \<and> m_queue s \<noteq> [] \<longrightarrow>
      wait_pop s = Return (Some (hd (m_queue s))) (s\<lparr>m_queue := tl (m_queue s)\<rparr>) No_Notify
      \<and> wait_pop_wake s = wait_pop s)"
  by (cases "m_queue s") (simp_all add: wait_pop_def wait_pop_wake_def wait_pop_pred_def)

theorem wait_pop_abandons_when_stopped_witness:
  "wait_pop \<lparr>m_queue = [7, 8::nat], m_joined = True\<rparr>
     = Return None \<lparr>m_queue = [7, 8], m_joined = True\<rparr> No_Notify
   \<and> wait_pop_wake \<lparr>m_queue = [7, 8::nat], m_joined = True\<rparr>
     = Return None \<lparr>m_queue = [7, 8], m_joined = True\<rparr> No_Notify
   \<and> wait_pop \<lparr>m_queue = [7, 8::nat], m_joined = False\<rparr>
     = Return (Some 7) \<lparr>m_queue = [8], m_joined = False\<rparr> No_Notify
   \<and> wait_pop_wake \<lparr>m_queue = [7, 8::nat], m_joined = False\<rparr>
     = Return (Some 7) \<lparr>m_queue = [8], m_joined = False\<rparr> No_Notify"
  using wait_pop_abandons_when_stopped [of "\<lparr>m_queue = [7, 8::nat], m_joined = True\<rparr>"]
    wait_pop_abandons_when_stopped [of "\<lparr>m_queue = [7, 8::nat], m_joined = False\<rparr>"]
  by simp

text \<open>
  C3. \<open>get\<close> returns the empty result if and only if the queue is stopped and the
  buffer is empty, at the call as well as at a wake-up from its wait. Whenever the buffer
  holds an item it returns the head item and removes it. With an empty buffer and the queue
  not stopped it takes no decision: it waits, and the state is unchanged.
\<close>

theorem get_empty_iff_stopped_and_empty:
  "((\<exists>s' n. get s = Return None s' n) \<longleftrightarrow> m_joined s \<and> m_queue s = [])
   \<and> ((\<exists>s' n. get_wake s = Return None s' n) \<longleftrightarrow> m_joined s \<and> m_queue s = [])
   \<and> (m_joined s \<and> m_queue s = [] \<longrightarrow> get s = Return None s No_Notify)
   \<and> (m_queue s \<noteq> [] \<longrightarrow>
        get s = Return (Some (hd (m_queue s))) (s\<lparr>m_queue := tl (m_queue s)\<rparr>) Notify_All)
   \<and> (\<not> m_joined s \<and> m_queue s = [] \<longrightarrow> get s = Wait s)
   \<and> get_wake s = get s"
  by (cases "m_queue s") (auto simp: get_def get_wake_def get_pred_def)

theorem get_empty_iff_stopped_and_empty_witness:
  "get \<lparr>m_queue = [], m_joined = True\<rparr>
     = (Return None \<lparr>m_queue = [], m_joined = True\<rparr> No_Notify :: (nat option, nat) outcome)
   \<and> get \<lparr>m_queue = [4, 5::nat], m_joined = True\<rparr>
     = Return (Some 4) \<lparr>m_queue = [5], m_joined = True\<rparr> Notify_All
   \<and> get \<lparr>m_queue = [4, 5::nat], m_joined = False\<rparr>
     = Return (Some 4) \<lparr>m_queue = [5], m_joined = False\<rparr> Notify_All
   \<and> get \<lparr>m_queue = [], m_joined = False\<rparr>
     = (Wait \<lparr>m_queue = [], m_joined = False\<rparr> :: (nat option, nat) outcome)"
  using get_empty_iff_stopped_and_empty [of "\<lparr>m_queue = [] :: nat list, m_joined = True\<rparr>"]
    get_empty_iff_stopped_and_empty [of "\<lparr>m_queue = [4, 5::nat], m_joined = True\<rparr>"]
    get_empty_iff_stopped_and_empty [of "\<lparr>m_queue = [4, 5::nat], m_joined = False\<rparr>"]
    get_empty_iff_stopped_and_empty [of "\<lparr>m_queue = [] :: nat list, m_joined = False\<rparr>"]
  by simp

text \<open>
  C4. For every state and every value: on a stopped queue \<open>push\<close> returns false and
  leaves both the items and the flag as they were; on a queue that is not stopped it
  appends the value at the tail of the items, leaves the flag alone and returns true.
\<close>

theorem push_stopped_or_appends:
  "(m_joined s \<longrightarrow> push s val = Return False s No_Notify)
   \<and> (\<not> m_joined s \<longrightarrow>
        (\<exists>s'. push s val = Return True s' Notify_One
           \<and> m_queue s' = m_queue s @ [val] \<and> m_joined s' = m_joined s))"
  by (simp add: push_def)

theorem push_stopped_or_appends_witness:
  "push \<lparr>m_queue = [1, 2::nat], m_joined = True\<rparr> 3
     = Return False \<lparr>m_queue = [1, 2], m_joined = True\<rparr> No_Notify
   \<and> push \<lparr>m_queue = [1, 2::nat], m_joined = False\<rparr> 3
     = Return True \<lparr>m_queue = [1, 2, 3], m_joined = False\<rparr> Notify_One"
  using push_stopped_or_appends [of "\<lparr>m_queue = [1, 2::nat], m_joined = True\<rparr>" 3]
    push_stopped_or_appends [of "\<lparr>m_queue = [1, 2::nat], m_joined = False\<rparr>" 3]
  by (auto simp: push_def)

text \<open>
  C5. Once \<open>complete\<close> has returned true, no sequence of calls and wake-ups, by any
  threads and in any order, ends in a fault or makes \<open>complete\<close> return false: every
  \<open>complete\<close> call in the sequence returns true, and so does one after the sequence.
\<close>

theorem complete_is_absorbing:
  assumes "complete (shared sys) = Return True s0 n0"
  shows "\<exists>sys' tr. run sys sched = Some (sys', tr)
           \<and> complete (shared sys') = Return True (shared sys') No_Notify
           \<and> (\<forall>t r. Ev t Complete r \<in> set tr \<longrightarrow> r = Ret_bool True)"
proof -
  from assms have c: "m_joined (shared sys)" "m_queue (shared sys) = []"
    by (auto simp: complete_def)
  from run_complete [OF c, of sched] obtain sys' tr where
    "run sys sched = Some (sys', tr)" and "shared sys' = shared sys"
    and "\<forall>t r. Ev t Complete r \<in> set tr \<longrightarrow> r = Ret_bool True"
    by blast
  with c show ?thesis
    by (simp add: complete_def)
qed

theorem complete_is_absorbing_witness:
  "complete \<lparr>m_queue = [] :: nat list, m_joined = True\<rparr>
     = Return True \<lparr>m_queue = [], m_joined = True\<rparr> No_Notify
   \<and> (\<exists>sys' tr.
        run \<lparr>shared = \<lparr>m_queue = [] :: nat list, m_joined = True\<rparr>,
              blocked = (\<lambda>_. None)(7 := Some Get, 8 := Some Join, 9 := Some Wait_pop)\<rparr>
          [(0, Invoke (Push 1)), (0, Invoke Complete), (1, Invoke Wait_pop), (7, Wake),
           (1, Invoke Get), (2, Invoke Stop), (8, Wake), (0, Invoke Complete),
           (2, Invoke Join), (9, Wake), (3, Invoke Empty), (3, Invoke Size),
           (3, Invoke Complete)]
          = Some (sys', tr)
        \<and> tr = [Ev 0 (Push 1) (Ret_bool False), Ev 0 Complete (Ret_bool True),
                Ev 1 Wait_pop (Ret_opt None), Ev 7 Get (Ret_opt None),
                Ev 1 Get (Ret_opt None), Ev 2 Stop Ret_unit, Ev 8 Join Ret_unit,
                Ev 0 Complete (Ret_bool True), Ev 2 Join Ret_unit,
                Ev 9 Wait_pop (Ret_opt None), Ev 3 Empty (Ret_bool True),
                Ev 3 Size (Ret_size 0), Ev 3 Complete (Ret_bool True)]
        \<and> complete (shared sys') = Return True \<lparr>m_queue = [], m_joined = True\<rparr> No_Notify)"
proof -
  let ?sys = "\<lparr>shared = \<lparr>m_queue = [] :: nat list, m_joined = True\<rparr>,
               blocked = (\<lambda>_. None)(7 := Some Get, 8 := Some Join, 9 := Some Wait_pop)\<rparr>"
  have h: "complete (shared ?sys) = Return True \<lparr>m_queue = [], m_joined = True\<rparr> No_Notify"
    by (simp add: complete_def)
  show ?thesis
    using h complete_is_absorbing [OF h,
      of "[(0, Invoke (Push 1)), (0, Invoke Complete), (1, Invoke Wait_pop), (7, Wake),
           (1, Invoke Get), (2, Invoke Stop), (8, Wake), (0, Invoke Complete),
           (2, Invoke Join), (9, Wake), (3, Invoke Empty), (3, Invoke Size),
           (3, Invoke Complete)]"]
    by (simp add: settle_def op_defs)
qed

text \<open>
  C6. \<open>stop\<close> is idempotent: a second \<open>stop\<close>, and any number of further ones, returns
  with the state the first one left. After a \<open>stop\<close> a \<open>push\<close> returns false, at once
  and after any sequence of calls and wake-ups by any threads.
\<close>

theorem stop_is_idempotent:
  assumes "stop s = Return u s1 n"
  shows "stop s1 = Return u s1 n
       \<and> stop_again k s = Return u s1 n
       \<and> push s1 val = Return False s1 No_Notify
       \<and> (\<forall>sys sched sys' tr t v r.
            shared sys = s1 \<and> run sys sched = Some (sys', tr) \<and> Ev t (Push v) r \<in> set tr
              \<longrightarrow> r = Ret_bool False)"
proof -
  from assms have s1: "s1 = s\<lparr>m_joined := True\<rparr>" and n: "n = Notify_All"
    by (simp_all add: stop_def)
  then have j: "m_joined s1"
    by simp
  have "stop s1 = Return u s1 n"
    using s1 n by (simp add: stop_def)
  moreover have "stop_again k s = Return u s1 n"
    using assms by (simp add: stop_again_eq)
  moreover have "push s1 val = Return False s1 No_Notify"
    using j by (simp add: push_def)
  moreover have "r = Ret_bool False"
    if "shared sys = s1 \<and> run sys sched = Some (sys', tr) \<and> Ev t (Push v) r \<in> set tr"
    for sys :: "'a system" and sched sys' tr t v r
    using run_joined [of sys sched sys' tr] that j by blast
  ultimately show ?thesis
    by blast
qed

theorem stop_is_idempotent_witness:
  "stop \<lparr>m_queue = [1, 2::nat], m_joined = False\<rparr>
     = Return () \<lparr>m_queue = [1, 2], m_joined = True\<rparr> Notify_All
   \<and> stop \<lparr>m_queue = [1, 2::nat], m_joined = True\<rparr>
     = Return () \<lparr>m_queue = [1, 2], m_joined = True\<rparr> Notify_All
   \<and> stop_again 2 \<lparr>m_queue = [1, 2::nat], m_joined = False\<rparr>
     = Return () \<lparr>m_queue = [1, 2], m_joined = True\<rparr> Notify_All
   \<and> push \<lparr>m_queue = [1, 2::nat], m_joined = True\<rparr> 3
     = Return False \<lparr>m_queue = [1, 2], m_joined = True\<rparr> No_Notify
   \<and> (\<exists>sys'.
        run \<lparr>shared = \<lparr>m_queue = [1, 2::nat], m_joined = True\<rparr>, blocked = (\<lambda>_. None)\<rparr>
          [(0, Invoke (Push 3)), (1, Invoke Get), (1, Invoke (Push 4)), (1, Invoke Get),
           (0, Invoke (Push 5))]
          = Some (sys',
              [Ev 0 (Push 3) (Ret_bool False), Ev 1 Get (Ret_opt (Some 1)),
               Ev 1 (Push 4) (Ret_bool False), Ev 1 Get (Ret_opt (Some 2)),
               Ev 0 (Push 5) (Ret_bool False)]))"
proof -
  have h: "stop \<lparr>m_queue = [1, 2::nat], m_joined = False\<rparr>
             = Return () \<lparr>m_queue = [1, 2], m_joined = True\<rparr> Notify_All"
    by (simp add: stop_def)
  have r: "\<exists>sys'.
        run \<lparr>shared = \<lparr>m_queue = [1, 2::nat], m_joined = True\<rparr>, blocked = (\<lambda>_. None)\<rparr>
          [(0, Invoke (Push 3)), (1, Invoke Get), (1, Invoke (Push 4)), (1, Invoke Get),
           (0, Invoke (Push 5))]
          = Some (sys',
              [Ev 0 (Push 3) (Ret_bool False), Ev 1 Get (Ret_opt (Some 1)),
               Ev 1 (Push 4) (Ret_bool False), Ev 1 Get (Ret_opt (Some 2)),
               Ev 0 (Push 5) (Ret_bool False)])"
    by (simp add: settle_def op_defs)
  show ?thesis
    using h r stop_is_idempotent [OF h, of 2 3]
    by (simp add: numeral_2_eq_2)
qed

text \<open>
  C7. \<open>join\<close> sets the stopped flag and never changes the buffer. Called with an empty
  buffer it returns at once; called with items in the buffer it waits, and from the wait it
  returns only in a state that is stopped with an empty buffer. In an execution of
  threads, a step in which a \<open>join\<close> call returns starts from an empty buffer and ends
  in a complete state.
\<close>

theorem join_stops_and_waits_for_drain:
  "(\<exists>s'. (join s = Return () s' No_Notify \<or> join s = Wait s')
          \<and> m_joined s' \<and> m_queue s' = m_queue s)
   \<and> (m_queue s = [] \<longrightarrow> join s = Return () (s\<lparr>m_joined := True\<rparr>) No_Notify)
   \<and> (m_queue s \<noteq> [] \<longrightarrow> join s = Wait (s\<lparr>m_joined := True\<rparr>))
   \<and> (m_joined s \<and> m_queue s = [] \<longrightarrow> join_wake s = Return () s No_Notify)
   \<and> (\<not> (m_joined s \<and> m_queue s = []) \<longrightarrow> join_wake s = Wait s)
   \<and> (\<forall>sys a sys' es t r.
         shared sys = s \<and> step sys a = Some (sys', es) \<and> Ev t Join r \<in> set es \<longrightarrow>
           m_joined (shared sys') \<and> m_queue (shared sys') = [] \<and> m_queue s = [])"
proof -
  have "\<exists>s'. (join s = Return () s' No_Notify \<or> join s = Wait s')
          \<and> m_joined s' \<and> m_queue s' = m_queue s"
    by (simp add: join_def join_wake_def Let_def)
  moreover have "m_queue s = [] \<longrightarrow> join s = Return () (s\<lparr>m_joined := True\<rparr>) No_Notify"
    by (simp add: join_def)
  moreover have "m_queue s \<noteq> [] \<longrightarrow> join s = Wait (s\<lparr>m_joined := True\<rparr>)"
    by (simp add: join_def join_wake_def)
  moreover have "m_joined s \<and> m_queue s = [] \<longrightarrow> join_wake s = Return () s No_Notify"
    by (simp add: join_wake_def)
  moreover have "\<not> (m_joined s \<and> m_queue s = []) \<longrightarrow> join_wake s = Wait s"
    by (simp add: join_wake_def)
  moreover have "\<forall>sys a sys' es t r.
         shared sys = s \<and> step sys a = Some (sys', es) \<and> Ev t Join r \<in> set es \<longrightarrow>
           m_joined (shared sys') \<and> m_queue (shared sys') = [] \<and> m_queue s = []"
    using step_join_event by blast
  ultimately show ?thesis
    by (intro conjI)
qed

theorem join_stops_and_waits_for_drain_witness:
  "join \<lparr>m_queue = [], m_joined = False\<rparr>
     = (Return () \<lparr>m_queue = [], m_joined = True\<rparr> No_Notify :: (unit, nat) outcome)
   \<and> join \<lparr>m_queue = [1, 2::nat], m_joined = False\<rparr>
     = Wait \<lparr>m_queue = [1, 2], m_joined = True\<rparr>
   \<and> join_wake \<lparr>m_queue = [2::nat], m_joined = True\<rparr>
     = Wait \<lparr>m_queue = [2], m_joined = True\<rparr>
   \<and> join_wake \<lparr>m_queue = [], m_joined = True\<rparr>
     = (Return () \<lparr>m_queue = [], m_joined = True\<rparr> No_Notify :: (unit, nat) outcome)
   \<and> step \<lparr>shared = \<lparr>m_queue = [] :: nat list, m_joined = True\<rparr>,
             blocked = (\<lambda>_. None)(3 := Some Join)\<rparr> (3, Wake)
     = Some (\<lparr>shared = \<lparr>m_queue = [], m_joined = True\<rparr>, blocked = (\<lambda>_. None)\<rparr>,
             [Ev 3 Join Ret_unit])"
proof -
  have "join \<lparr>m_queue = [], m_joined = False\<rparr>
     = (Return () \<lparr>m_queue = [], m_joined = True\<rparr> No_Notify :: (unit, nat) outcome)"
    using join_stops_and_waits_for_drain [of "\<lparr>m_queue = [] :: nat list, m_joined = False\<rparr>",
        THEN conjunct2, THEN conjunct1]
    by simp
  moreover have "join \<lparr>m_queue = [1, 2::nat], m_joined = False\<rparr>
     = Wait \<lparr>m_queue = [1, 2], m_joined = True\<rparr>"
    using join_stops_and_waits_for_drain [of "\<lparr>m_queue = [1, 2::nat], m_joined = False\<rparr>",
        THEN conjunct2, THEN conjunct2, THEN conjunct1]
    by simp
  moreover have "join_wake \<lparr>m_queue = [2::nat], m_joined = True\<rparr>
     = Wait \<lparr>m_queue = [2], m_joined = True\<rparr>"
    using join_stops_and_waits_for_drain [of "\<lparr>m_queue = [2::nat], m_joined = True\<rparr>",
        THEN conjunct2, THEN conjunct2, THEN conjunct2, THEN conjunct2, THEN conjunct1]
    by simp
  moreover have "join_wake \<lparr>m_queue = [], m_joined = True\<rparr>
     = (Return () \<lparr>m_queue = [], m_joined = True\<rparr> No_Notify :: (unit, nat) outcome)"
    using join_stops_and_waits_for_drain [of "\<lparr>m_queue = [] :: nat list, m_joined = True\<rparr>",
        THEN conjunct2, THEN conjunct2, THEN conjunct2, THEN conjunct1]
    by simp
  moreover have "step \<lparr>shared = \<lparr>m_queue = [] :: nat list, m_joined = True\<rparr>,
             blocked = (\<lambda>_. None)(3 := Some Join)\<rparr> (3, Wake)
     = Some (\<lparr>shared = \<lparr>m_queue = [], m_joined = True\<rparr>, blocked = (\<lambda>_. None)\<rparr>,
             [Ev 3 Join Ret_unit])"
    by (simp add: settle_def join_wake_def)
  ultimately show ?thesis
    by (intro conjI)
qed

text \<open>
  C8. No loss and no duplication under concurrent execution. For any number of threads
  and any order of their steps, the execution never reaches a fault, and the items in the
  buffer at the start followed by the successfully pushed values, in the order of the
  pushes, are exactly the values delivered to consumers, in the order of delivery,
  followed by the items still in the buffer. So every pushed value is delivered once, to
  the one thread of its pop event, or is still in the buffer, and deliveries are in
  FIFO order.
\<close>

theorem no_loss_no_duplication:
  "\<exists>sys' tr. run sys sched = Some (sys', tr)
     \<and> m_queue (shared sys) @ pushed tr = map snd (delivered tr) @ m_queue (shared sys')"
  by (rule run_conserves)

theorem no_loss_no_duplication_witness:
  "\<exists>sys' tr.
     run (new_system :: nat system)
       [(1, Invoke (Push 5)), (0, Invoke Wait_pop), (1, Invoke (Push 6)),
        (1, Invoke (Push 7)), (2, Invoke Get), (3, Invoke Join), (0, Invoke Wait_pop),
        (3, Wake), (4, Invoke (Push 9))]
       = Some (sys', tr)
     \<and> tr = [Ev 1 (Push 5) (Ret_bool True), Ev 0 Wait_pop (Ret_opt (Some 5)),
             Ev 1 (Push 6) (Ret_bool True), Ev 1 (Push 7) (Ret_bool True),
             Ev 2 Get (Ret_opt (Some 6)), Ev 0 Wait_pop (Ret_opt None),
             Ev 4 (Push 9) (Ret_bool False)]
     \<and> pushed tr = [5, 6, 7]
     \<and> delivered tr = [(0, 5), (2, 6)]
     \<and> m_queue (shared sys') = [7]
     \<and> m_queue (shared (new_system :: nat system)) @ pushed tr
         = map snd (delivered tr) @ m_queue (shared sys')"
  using no_loss_no_duplication [of "new_system :: nat system"
      "[(1, Invoke (Push 5)), (0, Invoke Wait_pop), (1, Invoke (Push 6)),
        (1, Invoke (Push 7)), (2, Invoke Get), (3, Invoke Join), (0, Invoke Wait_pop),
        (3, Wake), (4, Invoke (Push 9))]"]
  by (simp add: new_system_def new_queue_def settle_def op_defs pushed_def delivered_def)

text \<open>
  C9. \<open>empty\<close>, \<open>size\<close> and \<open>complete\<close> return with the items and the stopped flag
  exactly as they found them.
\<close>

theorem observers_leave_state_unchanged:
  "(\<exists>r. empty_q s = Return r s No_Notify)
   \<and> (\<exists>r. size_q s = Return r s No_Notify)
   \<and> (\<exists>r. complete s = Return r s No_Notify)"
  by (simp add: empty_q_def size_q_def complete_def)

theorem observers_leave_state_unchanged_witness:
  "empty_q \<lparr>m_queue = [1, 2::nat], m_joined = False\<rparr>
     = Return False \<lparr>m_queue = [1, 2], m_joined = False\<rparr> No_Notify
   \<and> size_q \<lparr>m_queue = [1, 2::nat], m_joined = False\<rparr>
     = Return 2 \<lparr>m_queue = [1, 2], m_joined = False\<rparr> No_Notify
   \<and> complete \<lparr>m_queue = [1, 2::nat], m_joined = False\<rparr>
     = Return False \<lparr>m_queue = [1, 2], m_joined = False\<rparr> No_Notify"
  using observers_leave_state_unchanged [of "\<lparr>m_queue = [1, 2::nat], m_joined = False\<rparr>"]
  by (simp add: empty_q_def size_q_def complete_def)

text \<open>
  C10. On a stopped queue every public operation is well defined: \<open>push\<close> returns
  false, \<open>wait_pop\<close> returns empty, repeated \<open>get\<close> returns the remaining items and
  then empty, \<open>stop\<close> returns with the state unchanged, \<open>join\<close> returns when the queue
  is drained, no call and no wake-up reads the front of an empty buffer, and every call
  other than a \<open>join\<close> on a buffer that still holds items returns.
\<close>

theorem stopped_queue_is_well_defined:
  assumes "m_joined s"
  shows "push s val = Return False s No_Notify
       \<and> wait_pop s = Return None s No_Notify
       \<and> drain s = (m_queue s, Return None (s\<lparr>m_queue := []\<rparr>) No_Notify)
       \<and> stop s = Return () s Notify_All
       \<and> (m_queue s = [] \<longrightarrow> join s = Return () s No_Notify)
       \<and> (\<forall>c. invoke c s \<noteq> Fault \<and> resume c s \<noteq> Fault)
       \<and> (\<forall>c. c \<noteq> Join \<or> m_queue s = [] \<longrightarrow> (\<exists>r s' n. invoke c s = Return r s' n))"
proof -
  have same: "s\<lparr>m_joined := True\<rparr> = s"
    using assms by simp
  have "push s val = Return False s No_Notify"
    using assms by (simp add: push_def)
  moreover have "wait_pop s = Return None s No_Notify"
    using assms by (simp add: wait_pop_def)
  moreover note drain_joined [OF assms]
  moreover have "stop s = Return () s Notify_All"
    using same by (simp add: stop_def)
  moreover have "m_queue s = [] \<longrightarrow> join s = Return () s No_Notify"
    using same by (simp add: join_def)
  moreover have "\<forall>c. invoke c s \<noteq> Fault \<and> resume c s \<noteq> Fault"
    by (simp add: invoke_no_fault resume_no_fault)
  moreover have "\<forall>c. c \<noteq> Join \<or> m_queue s = [] \<longrightarrow> (\<exists>r s' n. invoke c s = Return r s' n)"
  proof (intro allI impI)
    fix c :: "'a call"
    assume "c \<noteq> Join \<or> m_queue s = []"
    then show "\<exists>r s' n. invoke c s = Return r s' n"
      using assms by (cases c; cases "m_queue s") (simp_all add: op_defs Let_def)
  qed
  ultimately show ?thesis
    by (intro conjI)
qed

theorem stopped_queue_is_well_defined_witness:
  "m_joined \<lparr>m_queue = [1, 2::nat], m_joined = True\<rparr>
   \<and> push \<lparr>m_queue = [1, 2::nat], m_joined = True\<rparr> 3
       = Return False \<lparr>m_queue = [1, 2], m_joined = True\<rparr> No_Notify
   \<and> wait_pop \<lparr>m_queue = [1, 2::nat], m_joined = True\<rparr>
       = Return None \<lparr>m_queue = [1, 2], m_joined = True\<rparr> No_Notify
   \<and> drain \<lparr>m_queue = [1, 2::nat], m_joined = True\<rparr>
       = ([1, 2], Return None \<lparr>m_queue = [], m_joined = True\<rparr> No_Notify)
   \<and> stop \<lparr>m_queue = [1, 2::nat], m_joined = True\<rparr>
       = Return () \<lparr>m_queue = [1, 2], m_joined = True\<rparr> Notify_All
   \<and> invoke Join \<lparr>m_queue = [1, 2::nat], m_joined = True\<rparr> \<noteq> Fault"
proof -
  have h: "m_joined \<lparr>m_queue = [1, 2::nat], m_joined = True\<rparr>"
    by simp
  show ?thesis
    using h stopped_queue_is_well_defined [OF h, of 3]
    by (simp add: join_def join_wake_def)
qed

end
